theory Spec2Isabelle
  imports Complex_Main "HOL-Library.Word"
begin

unbundle bit_operations_syntax

section \<open>Compile-time strings (ct-string.hpp)\<close>

text \<open>
  A \<^verbatim>\<open>ct::string<char... str>\<close> is the pack of its template arguments: a list of
  characters.  \<^verbatim>\<open>operator+\<close> concatenates the two packs, which is list append.
  A C++ \<^verbatim>\<open>char\<close> is modelled by the 8-bit type \<^typ>\<open>char\<close>; the integral promotion of a
  \<^verbatim>\<open>char\<close> to \<^verbatim>\<open>int\<close> is \<open>int_of_char\<close> (the value of the byte, 0 to 255), and the
  conversion of an \<^verbatim>\<open>int\<close> template argument to \<^verbatim>\<open>char\<close> is \<^const>\<open>char_of\<close>
  (the low eight bits).  The section on the signedness of \<^verbatim>\<open>char\<close> below shows that the
  promotion of a signed \<^verbatim>\<open>char\<close> gives the encoder and \<open>indexOf\<close> the same values.
\<close>

type_synonym b64char = char
type_synonym ct_string = "char list"

definition int_of_char :: "char \<Rightarrow> int" where
  "int_of_char c = of_char c"

section \<open>The alphabet and its inverse (ct-base64-impl.h, lines 5 to 18)\<close>

definition dict :: "b64char list" where
  "dict = ''ABCDEFGHIJKLMNOPQRSTUVWXYZabcdefghijklmnopqrstuvwxyz0123456789@&''"

text \<open>
  \<^verbatim>\<open>index_type\<close> is \<^verbatim>\<open>uint8_t\<close>; every value computed below lies between 0 and 64, so
  the conversion to \<^verbatim>\<open>index_type\<close> changes nothing and the result is kept as an \<^typ>\<open>int\<close>,
  which is what the callers promote it to.
\<close>

definition indexOf :: "b64char \<Rightarrow> int" where
  "indexOf c =
     (if int_of_char CHR ''A'' \<le> int_of_char c \<and> int_of_char c \<le> int_of_char CHR ''Z''
        then 0 + int_of_char c - int_of_char CHR ''A''
      else if int_of_char CHR ''a'' \<le> int_of_char c \<and> int_of_char c \<le> int_of_char CHR ''z''
        then 26 + int_of_char c - int_of_char CHR ''a''
      else if int_of_char CHR ''0'' \<le> int_of_char c \<and> int_of_char c \<le> int_of_char CHR ''9''
        then 52 + int_of_char c - int_of_char CHR ''0''
      else if c = CHR ''@'' then 62
      else if c = CHR ''&'' then 63
      else 64)"

section \<open>Validity of an encoding (namespace checks, lines 20 to 39)\<close>

text \<open>
  The variable template \<^verbatim>\<open>is_base64_chars_v\<close> has four specialisations.  For a pack that
  several of them match, the compiler takes the most specialised one: \<^verbatim>\<open><head, '=', '='>\<close>
  and \<^verbatim>\<open><head, '='>\<close> before \<^verbatim>\<open><head, tail...>\<close>.
\<close>

fun is_base64_chars_v :: "char list \<Rightarrow> bool" where
  "is_base64_chars_v [] = True"
| "is_base64_chars_v (head # tail) =
     (if tail = [CHR ''='', CHR ''=''] then indexOf head < 64
      else if tail = [CHR ''=''] then indexOf head < 64
      else indexOf head < 64 \<and> is_base64_chars_v tail)"

definition is_base64_valid_length_v :: "nat \<Rightarrow> bool" where
  "is_base64_valid_length_v n = (n mod 4 = 0)"

definition is_base64_encoding_v :: "char list \<Rightarrow> bool" where
  "is_base64_encoding_v chars =
     (is_base64_valid_length_v (length chars) \<and> is_base64_chars_v chars)"

section \<open>The encoder (lines 43 to 77)\<close>

text \<open>
  The operands of \<^verbatim>\<open>&\<close>, \<^verbatim>\<open><<\<close>, \<^verbatim>\<open>>>\<close> and \<^verbatim>\<open>|\<close> are promoted to \<^verbatim>\<open>int\<close>; every
  intermediate value is below \<open>2 ^ 8\<close>, so no 32-bit operation overflows.  Every index
  into \<^verbatim>\<open>dict\<close> lies between 0 and 63 (lemma \<open>enc_sextets_less\<close> below), so no read of
  the table is out of range.
\<close>

fun CTBase64Encoder :: "char list \<Rightarrow> ct_string" where
  "CTBase64Encoder (c1 # c2 # c3 # chars) =
     [dict ! nat (drop_bit 2 (int_of_char c1 AND 0xFC)),
      dict ! nat (push_bit 4 (int_of_char c1 AND 0x03) OR drop_bit 4 (int_of_char c2 AND 0xF0)),
      dict ! nat (push_bit 2 (int_of_char c2 AND 0x0F) OR drop_bit 6 (int_of_char c3 AND 0xC0)),
      dict ! nat (int_of_char c3 AND 0x3F)] @ CTBase64Encoder chars"
| "CTBase64Encoder [c1, c2] =
     [dict ! nat (drop_bit 2 (int_of_char c1 AND 0xFC)),
      dict ! nat (push_bit 4 (int_of_char c1 AND 0x03) OR drop_bit 4 (int_of_char c2 AND 0xF0)),
      dict ! nat (push_bit 2 (int_of_char c2 AND 0x0F)),
      CHR ''='']"
| "CTBase64Encoder [c1] =
     [dict ! nat (drop_bit 2 (int_of_char c1 AND 0xFC)),
      dict ! nat (push_bit 4 (int_of_char c1 AND 0x03)),
      CHR ''='', CHR ''='']"
| "CTBase64Encoder [] = []"

section \<open>The decoder (lines 81 to 128)\<close>

text \<open>
  \<^verbatim>\<open>string_from_int\<close> passes three values between 0 and 255 as \<^verbatim>\<open>char\<close> template
  arguments.  The model takes the byte with that value, which is the conversion where
  \<^verbatim>\<open>char\<close> is unsigned; where \<^verbatim>\<open>char\<close> is signed, a value above 127 is a narrowing
  conversion that a compiler may refuse, and the model then describes the decoder on the
  inputs whose decoded bytes are below 128.  \<^verbatim>\<open>int32_t\<close> holds every packed value: an
  index is at most 64, so a packed value is below \<open>2 ^ 25\<close>.
\<close>

definition string_from_int :: "int \<Rightarrow> ct_string" where
  "string_from_int s =
     [char_of (drop_bit 16 s AND 0xFF), char_of (drop_bit 8 s AND 0xFF), char_of (s AND 0xFF)]"

text \<open>
  A failed \<^verbatim>\<open>static_assert\<close> and a pack that only the self-referential primary template
  matches both stop the compilation; they are the two errors of the model.
\<close>

datatype error = InvalidEncoding | NoSpecialization

text \<open>
  \<^verbatim>\<open>b64_decoder_impl\<close>: the specialisations \<^verbatim>\<open><c1, c2, '=', '='>\<close> and
  \<^verbatim>\<open><c1, c2, c3, '='>\<close> match packs of exactly four characters and are more specialised
  than \<^verbatim>\<open><c1, c2, c3, c4, chars...>\<close>.  A pack of one, two or three characters matches
  the primary template only.
\<close>

fun b64_decoder_impl :: "b64char list \<Rightarrow> error + ct_string" where
  "b64_decoder_impl [] = Inr []"
| "b64_decoder_impl (c1 # c2 # c3 # c4 # chars) =
     (if chars = [] \<and> c3 = CHR ''='' \<and> c4 = CHR ''=''
        then Inr (string_from_int (push_bit 18 (indexOf c1) OR push_bit 12 (indexOf c2)))
      else if chars = [] \<and> c4 = CHR ''=''
        then Inr (string_from_int
               (push_bit 18 (indexOf c1) OR push_bit 12 (indexOf c2) OR push_bit 6 (indexOf c3)))
      else
        (case b64_decoder_impl chars of
           Inl e \<Rightarrow> Inl e
         | Inr decoded_string \<Rightarrow>
             Inr (string_from_int
                    (push_bit 18 (indexOf c1) OR push_bit 12 (indexOf c2) OR
                     push_bit 6 (indexOf c3) OR indexOf c4) @ decoded_string)))"
| "b64_decoder_impl _ = Inl NoSpecialization"

definition b64_decode_if :: "bool \<Rightarrow> b64char list \<Rightarrow> error + ct_string" where
  "b64_decode_if isvalid chars =
     (if isvalid then b64_decoder_impl chars else Inl InvalidEncoding)"

definition CTBase64Decoder :: "b64char list \<Rightarrow> error + ct_string" where
  "CTBase64Decoder chars = b64_decode_if (is_base64_encoding_v chars) chars"

section \<open>The interface (ct-base64.hpp, struct Base64)\<close>

definition encode :: "ct_string \<Rightarrow> ct_string" where
  "encode s = CTBase64Encoder s"

definition decode :: "ct_string \<Rightarrow> error + ct_string" where
  "decode s = CTBase64Decoder s"

section \<open>Auxiliary notions for the statements\<close>

text \<open>The 24-bit value the decoder packs from four indices below 64.\<close>

definition pack24 :: "int \<Rightarrow> int \<Rightarrow> int \<Rightarrow> int \<Rightarrow> int" where
  "pack24 i0 i1 i2 i3 = push_bit 18 i0 OR push_bit 12 i1 OR push_bit 6 i2 OR i3"

text \<open>
  The six index expressions of the encoder's three specialisations, named so that the
  lemmas below can speak about them.
\<close>

definition enc_sextet0 :: "char \<Rightarrow> int" where
  "enc_sextet0 c1 = drop_bit 2 (int_of_char c1 AND 0xFC)"

definition enc_sextet1 :: "char \<Rightarrow> char \<Rightarrow> int" where
  "enc_sextet1 c1 c2 = push_bit 4 (int_of_char c1 AND 0x03) OR drop_bit 4 (int_of_char c2 AND 0xF0)"

definition enc_sextet2 :: "char \<Rightarrow> char \<Rightarrow> int" where
  "enc_sextet2 c2 c3 = push_bit 2 (int_of_char c2 AND 0x0F) OR drop_bit 6 (int_of_char c3 AND 0xC0)"

definition enc_sextet3 :: "char \<Rightarrow> int" where
  "enc_sextet3 c3 = int_of_char c3 AND 0x3F"

definition enc_sextet1_last :: "char \<Rightarrow> int" where
  "enc_sextet1_last c1 = push_bit 4 (int_of_char c1 AND 0x03)"

definition enc_sextet2_last :: "char \<Rightarrow> int" where
  "enc_sextet2_last c2 = push_bit 2 (int_of_char c2 AND 0x0F)"

text \<open>
  The shape of a well-formed encoding, stated without the recursion of the checker: the
  characters before the first \<open>=\<close> are alphabet members, what starts at the first \<open>=\<close> is
  nothing, \<open>=\<close> or \<open>==\<close>, and the length is a multiple of four.
\<close>

definition alphabet_part :: "char list \<Rightarrow> char list" where
  "alphabet_part s = takeWhile (\<lambda>c. c \<noteq> CHR ''='') s"

definition padding_part :: "char list \<Rightarrow> char list" where
  "padding_part s = dropWhile (\<lambda>c. c \<noteq> CHR ''='') s"

definition well_formed :: "char list \<Rightarrow> bool" where
  "well_formed s =
     (length s mod 4 = 0 \<and> set (alphabet_part s) \<subseteq> set dict \<and>
      (padding_part s = [] \<or> padding_part s = ''='' \<or> padding_part s = ''==''))"

text \<open>
  The index a character contributes to the packed value of its group: a padding
  character contributes no bits.
\<close>

definition sextet_of :: "b64char \<Rightarrow> int" where
  "sextet_of c = (if c = CHR ''='' then 0 else indexOf c)"

text \<open>The conventional Base64 alphabet (RFC 4648), for comparison with \<^const>\<open>dict\<close>.\<close>

definition standard_alphabet :: "char list" where
  "standard_alphabet = ''ABCDEFGHIJKLMNOPQRSTUVWXYZabcdefghijklmnopqrstuvwxyz0123456789+/''"

text \<open>
  The promotion of a \<^verbatim>\<open>char\<close> to \<^verbatim>\<open>int\<close> where \<^verbatim>\<open>char\<close> is signed, for comparison
  with \<^const>\<open>int_of_char\<close>.
\<close>

definition signed_int_of_char :: "char \<Rightarrow> int" where
  "signed_int_of_char c = (if int_of_char c < 128 then int_of_char c else int_of_char c - 256)"

text \<open>The C string that starts at \<^verbatim>\<open>data\<close>: the characters before the first zero byte.\<close>

definition c_str :: "char list \<Rightarrow> char list" where
  "c_str s = takeWhile (\<lambda>c. c \<noteq> CHR 0x00) s"

section \<open>Bit arithmetic of the masks and shifts\<close>

text \<open>
  Each mask of the source selects a run of adjacent bits, so a masked value is a
  \<^const>\<open>take_bit\<close> of a \<^const>\<open>drop_bit\<close>, shifted back.
\<close>

lemmas enc_sextet_defs = enc_sextet0_def enc_sextet1_def enc_sextet2_def enc_sextet3_def
  enc_sextet1_last_def enc_sextet2_last_def

lemma and_shifted_mask:
  "(x::int) AND push_bit k (mask m) = push_bit k (take_bit m (drop_bit k x))"
  by (rule bit_eqI) (auto simp: bit_simps)

lemma and_0xFC: "(x::int) AND 0xFC = push_bit 2 (take_bit 6 (drop_bit 2 x))"
  using and_shifted_mask [of x 2 6] by (simp add: mask_eq_exp_minus_1)

lemma and_0xF0: "(x::int) AND 0xF0 = push_bit 4 (take_bit 4 (drop_bit 4 x))"
  using and_shifted_mask [of x 4 4] by (simp add: mask_eq_exp_minus_1)

lemma and_0xC0: "(x::int) AND 0xC0 = push_bit 6 (take_bit 2 (drop_bit 6 x))"
  using and_shifted_mask [of x 6 2] by (simp add: mask_eq_exp_minus_1)

lemma and_0x03: "(x::int) AND 0x03 = take_bit 2 x"
  by (simp add: take_bit_eq_mask mask_eq_exp_minus_1)

lemma and_0x0F: "(x::int) AND 0x0F = take_bit 4 x"
  by (simp add: take_bit_eq_mask mask_eq_exp_minus_1)

lemma and_0x3F: "(x::int) AND 0x3F = take_bit 6 x"
  by (simp add: take_bit_eq_mask mask_eq_exp_minus_1)

lemma and_0xFF: "(x::int) AND 0xFF = take_bit 8 x"
  by (simp add: take_bit_eq_mask mask_eq_exp_minus_1)

lemmas and_consts = and_0xFC and_0xF0 and_0xC0 and_0x03 and_0x0F and_0x3F and_0xFF

lemmas shift_simps = drop_bit_push_bit take_bit_push_bit drop_bit_take_bit

lemma join_bits:
  "push_bit n (take_bit m (drop_bit n x)) OR take_bit n x = take_bit (m + n) (x::int)"
  by (rule bit_eqI) (auto simp: bit_simps)

lemma sextet_iff: "take_bit 6 (i::int) = i \<longleftrightarrow> 0 \<le> i \<and> i < 64"
  by (simp add: take_bit_int_eq_self_iff)

subsection \<open>Characters as bytes\<close>

lemma byte_int_of_char: "take_bit 8 (int_of_char c) = int_of_char c"
  by (simp add: int_of_char_def take_bit_eq_mod)

lemma int_of_char_char_of: "int_of_char (char_of (x::int)) = take_bit 8 x"
  by (simp add: int_of_char_def take_bit_eq_mod)

lemma char_of_int_of_char: "char_of (int_of_char c) = c"
  by (simp add: int_of_char_def)

lemma int_of_char_range: "0 \<le> int_of_char c \<and> int_of_char c < 256"
  using byte_int_of_char [of c] by (simp add: take_bit_int_eq_self_iff)

subsection \<open>Three bytes to four sextets and back\<close>


lemma pack24_byte0:
  "drop_bit 16 (pack24 (drop_bit 2 (take_bit 8 x AND 0xFC))
       (push_bit 4 (take_bit 8 x AND 0x03) OR drop_bit 4 (take_bit 8 y AND 0xF0))
       (push_bit 2 (take_bit 8 y AND 0x0F) OR drop_bit 6 (take_bit 8 z AND 0xC0))
       (take_bit 8 z AND 0x3F)) AND 0xFF = take_bit 8 x"
  using join_bits [of 2 6 x] by (simp add: pack24_def and_consts shift_simps)

lemma pack24_byte1:
  "drop_bit 8 (pack24 (drop_bit 2 (take_bit 8 x AND 0xFC))
       (push_bit 4 (take_bit 8 x AND 0x03) OR drop_bit 4 (take_bit 8 y AND 0xF0))
       (push_bit 2 (take_bit 8 y AND 0x0F) OR drop_bit 6 (take_bit 8 z AND 0xC0))
       (take_bit 8 z AND 0x3F)) AND 0xFF = take_bit 8 y"
  using join_bits [of 4 4 y] by (simp add: pack24_def and_consts shift_simps)

lemma pack24_byte2:
  "pack24 (drop_bit 2 (take_bit 8 x AND 0xFC))
       (push_bit 4 (take_bit 8 x AND 0x03) OR drop_bit 4 (take_bit 8 y AND 0xF0))
       (push_bit 2 (take_bit 8 y AND 0x0F) OR drop_bit 6 (take_bit 8 z AND 0xC0))
       (take_bit 8 z AND 0x3F) AND 0xFF = take_bit 8 z"
  using join_bits [of 6 2 z] by (simp add: pack24_def and_consts shift_simps)

text \<open>The other direction: the encoder's four indices of the three bytes of a packed value.\<close>

lemma sextet0_of_pack24:
  "drop_bit 2 (take_bit 8 (drop_bit 16
       (pack24 (take_bit 6 i0) (take_bit 6 i1) (take_bit 6 i2) (take_bit 6 i3)) AND 0xFF) AND 0xFC)
   = take_bit 6 i0"
  by (simp add: pack24_def and_consts shift_simps)

lemma sextet1_of_pack24:
  "push_bit 4 (take_bit 8 (drop_bit 16
       (pack24 (take_bit 6 i0) (take_bit 6 i1) (take_bit 6 i2) (take_bit 6 i3)) AND 0xFF) AND 0x03) OR
   drop_bit 4 (take_bit 8 (drop_bit 8
       (pack24 (take_bit 6 i0) (take_bit 6 i1) (take_bit 6 i2) (take_bit 6 i3)) AND 0xFF) AND 0xF0)
   = take_bit 6 i1"
  using join_bits [of 4 2 i1] by (simp add: pack24_def and_consts shift_simps)

lemma sextet2_of_pack24:
  "push_bit 2 (take_bit 8 (drop_bit 8
       (pack24 (take_bit 6 i0) (take_bit 6 i1) (take_bit 6 i2) (take_bit 6 i3)) AND 0xFF) AND 0x0F) OR
   drop_bit 6 (take_bit 8
       (pack24 (take_bit 6 i0) (take_bit 6 i1) (take_bit 6 i2) (take_bit 6 i3) AND 0xFF) AND 0xC0)
   = take_bit 6 i2"
  using join_bits [of 2 4 i2] by (simp add: pack24_def and_consts shift_simps)

lemma sextet3_of_pack24:
  "take_bit 8 (pack24 (take_bit 6 i0) (take_bit 6 i1) (take_bit 6 i2) (take_bit 6 i3) AND 0xFF)
     AND 0x3F = take_bit 6 i3"
  by (simp add: pack24_def and_consts shift_simps)

section \<open>The alphabet table and \<open>indexOf\<close>\<close>

lemma dict_as_ranges: "dict = map char_of ([65..<91] @ [97..<123] @ [48..<58] @ [64, 38::nat])"
  by code_simp

lemma indexOf_dict_all: "map indexOf dict = map int [0..<64]"
  by code_simp

lemma length_dict: "length dict = 64"
  by (simp add: dict_def)

lemma distinct_dict: "distinct dict"
  by (simp add: dict_def)

lemma pad_notin_dict: "CHR ''='' \<notin> set dict"
  by (simp add: dict_def)

lemma indexOf_pad: "indexOf CHR ''='' = 64"
  by (simp add: indexOf_def int_of_char_def)

lemma indexOf_range: "0 \<le> indexOf c \<and> indexOf c \<le> 64"
  using int_of_char_range [of c] by (simp add: indexOf_def int_of_char_def)

lemma indexOf_dict_nth: "n < 64 \<Longrightarrow> indexOf (dict ! n) = int n"
proof -
  assume n: "n < 64"
  then have "indexOf (dict ! n) = map indexOf dict ! n"
    by (simp add: length_dict)
  also have "\<dots> = int n"
    using n by (simp only: indexOf_dict_all) simp
  finally show ?thesis .
qed

lemma dict_nth_upper: "k < 26 \<Longrightarrow> dict ! k = char_of (65 + k)"
  by (simp add: dict_as_ranges nth_append del: upt_rec_numeral)

lemma dict_nth_lower: "k < 26 \<Longrightarrow> dict ! (26 + k) = char_of (97 + k)"
  by (simp add: dict_as_ranges nth_append del: upt_rec_numeral)

lemma dict_nth_digit: "k < 10 \<Longrightarrow> dict ! (52 + k) = char_of (48 + k)"
  by (simp add: dict_as_ranges nth_append del: upt_rec_numeral)

lemma dict_nth_62: "dict ! 62 = CHR ''@''"
  by (simp add: dict_def)

lemma dict_nth_63: "dict ! 63 = CHR ''&''"
  by (simp add: dict_def)

lemma dict_indexOf: "indexOf c < 64 \<Longrightarrow> dict ! nat (indexOf c) = c"
proof -
  assume a: "indexOf c < 64"
  define n :: nat where "n = of_char c"
  have c: "c = char_of n" by (simp add: n_def)
  have i: "int_of_char c = int n" by (simp add: n_def int_of_char_def of_nat_of_char)
  consider (upper) "65 \<le> n" "n \<le> 90" | (lower) "97 \<le> n" "n \<le> 122" | (digit) "48 \<le> n" "n \<le> 57"
    | (at) "c = CHR ''@''" | (amp) "c = CHR ''&''"
    using a unfolding indexOf_def i by (simp add: int_of_char_def split: if_splits)
  then show ?thesis
  proof cases
    case upper
    then have "nat (indexOf c) = n - 65" unfolding indexOf_def i by (simp add: int_of_char_def)
    moreover have "dict ! (n - 65) = c" using upper dict_nth_upper [of "n - 65"] by (simp add: c)
    ultimately show ?thesis by simp
  next
    case lower
    then have "nat (indexOf c) = 26 + (n - 97)" unfolding indexOf_def i by (simp add: int_of_char_def)
    moreover have "dict ! (26 + (n - 97)) = c" using lower dict_nth_lower [of "n - 97"] by (simp add: c)
    ultimately show ?thesis by simp
  next
    case digit
    then have "nat (indexOf c) = 52 + (n - 48)" unfolding indexOf_def i by (simp add: int_of_char_def)
    moreover have "dict ! (52 + (n - 48)) = c" using digit dict_nth_digit [of "n - 48"] by (simp add: c)
    ultimately show ?thesis by simp
  next
    case at
    then show ?thesis by (simp add: indexOf_def int_of_char_def dict_nth_62)
  next
    case amp
    then show ?thesis by (simp add: indexOf_def int_of_char_def dict_nth_63)
  qed
qed

lemma sextet_nat: "take_bit 6 i = i \<Longrightarrow> nat i < 64 \<and> int (nat i) = i"
  unfolding sextet_iff by linarith

lemma indexOf_dict_sextet: "take_bit 6 i = i \<Longrightarrow> indexOf (dict ! nat i) = i"
  using indexOf_dict_nth [of "nat i"] sextet_nat [of i] by simp

lemma dict_sextet_mem: "take_bit 6 i = i \<Longrightarrow> dict ! nat i \<in> set dict"
  using sextet_nat [of i] by (simp add: length_dict)

lemma dict_sextet_not_pad: "take_bit 6 i = i \<Longrightarrow> dict ! nat i \<noteq> CHR ''=''"
  using dict_sextet_mem [of i] pad_notin_dict by auto

lemma indexOf_mem_dict: "indexOf c < 64 \<longleftrightarrow> c \<in> set dict"
proof
  assume a: "indexOf c < 64"
  have "nat (indexOf c) < length dict"
    using a indexOf_range [of c] by (simp add: length_dict)
  then have "dict ! nat (indexOf c) \<in> set dict" by (rule nth_mem)
  then show "c \<in> set dict" using a by (simp add: dict_indexOf)
next
  assume "c \<in> set dict"
  then obtain n where n: "n < length dict" "dict ! n = c"
    by (auto simp: in_set_conv_nth)
  then show "indexOf c < 64"
    using indexOf_dict_nth [of n] by (simp add: length_dict)
qed

lemma indexOf_sextet: "indexOf c < 64 \<Longrightarrow> take_bit 6 (indexOf c) = indexOf c"
  using indexOf_range [of c] by (simp add: sextet_iff)

subsection \<open>The indices computed by the encoder\<close>

lemma enc_index0: "take_bit 6 (drop_bit 2 (x AND 0xFC)) = drop_bit 2 ((x::int) AND 0xFC)"
  by (simp add: and_consts shift_simps)

lemma enc_index1:
  "take_bit 6 (push_bit 4 (x AND 0x03) OR drop_bit 4 (y AND 0xF0))
     = push_bit 4 ((x::int) AND 0x03) OR drop_bit 4 (y AND 0xF0)"
  by (simp add: and_consts shift_simps)

lemma enc_index2:
  "take_bit 6 (push_bit 2 (y AND 0x0F) OR drop_bit 6 (z AND 0xC0))
     = push_bit 2 ((y::int) AND 0x0F) OR drop_bit 6 (z AND 0xC0)"
  by (simp add: and_consts shift_simps)

lemma enc_index3: "take_bit 6 (z AND 0x3F) = (z::int) AND 0x3F"
  by (simp add: and_consts shift_simps)

lemma enc_index1_last: "take_bit 6 (push_bit 4 (x AND 0x03)) = push_bit 4 ((x::int) AND 0x03)"
  by (simp add: and_consts shift_simps)

lemma enc_index2_last: "take_bit 6 (push_bit 2 (y AND 0x0F)) = push_bit 2 ((y::int) AND 0x0F)"
  by (simp add: and_consts shift_simps)

lemmas enc_indices = enc_index0 enc_index1 enc_index2 enc_index3 enc_index1_last enc_index2_last

text \<open>Without the masks, as the shifts of the byte values.\<close>

lemma enc_index0_byte: "drop_bit 2 (int_of_char c AND 0xFC) = drop_bit 2 (int_of_char c)"
  using byte_int_of_char [of c, symmetric] drop_bit_take_bit [of 2 8 "int_of_char c"]
  by (simp add: and_consts shift_simps)

lemma enc_high_nibble_byte: "drop_bit 4 (int_of_char c AND 0xF0) = drop_bit 4 (int_of_char c)"
  using byte_int_of_char [of c, symmetric] drop_bit_take_bit [of 4 8 "int_of_char c"]
  by (simp add: and_consts shift_simps)

lemma enc_high_pair_byte: "drop_bit 6 (int_of_char c AND 0xC0) = drop_bit 6 (int_of_char c)"
  using byte_int_of_char [of c, symmetric] drop_bit_take_bit [of 6 8 "int_of_char c"]
  by (simp add: and_consts shift_simps)

section \<open>Decoding what the encoder emits\<close>

lemma CTBase64Encoder_group3:
  "CTBase64Encoder (c1 # c2 # c3 # chars) =
     [dict ! nat (enc_sextet0 c1), dict ! nat (enc_sextet1 c1 c2),
      dict ! nat (enc_sextet2 c2 c3), dict ! nat (enc_sextet3 c3)] @ CTBase64Encoder chars"
  by (simp add: enc_sextet_defs)

lemma CTBase64Encoder_group2:
  "CTBase64Encoder [c1, c2] =
     [dict ! nat (enc_sextet0 c1), dict ! nat (enc_sextet1 c1 c2),
      dict ! nat (enc_sextet2_last c2), CHR ''='']"
  by (simp add: enc_sextet_defs)

lemma CTBase64Encoder_group1:
  "CTBase64Encoder [c1] =
     [dict ! nat (enc_sextet0 c1), dict ! nat (enc_sextet1_last c1), CHR ''='', CHR ''='']"
  by (simp add: enc_sextet_defs)

lemmas CTBase64Encoder_groups =
  CTBase64Encoder_group3 CTBase64Encoder_group2 CTBase64Encoder_group1

lemma enc_sextets:
  "take_bit 6 (enc_sextet0 c1) = enc_sextet0 c1"
  "take_bit 6 (enc_sextet1 c1 c2) = enc_sextet1 c1 c2"
  "take_bit 6 (enc_sextet2 c2 c3) = enc_sextet2 c2 c3"
  "take_bit 6 (enc_sextet3 c3) = enc_sextet3 c3"
  "take_bit 6 (enc_sextet1_last c1) = enc_sextet1_last c1"
  "take_bit 6 (enc_sextet2_last c2) = enc_sextet2_last c2"
  unfolding enc_sextet_defs by (rule enc_indices)+

lemma char_of_zero: "char_of (0::int) = CHR 0x00"
  by (simp add: char_of_def)

lemma string_from_int_group3:
  "string_from_int (pack24 (enc_sextet0 c1) (enc_sextet1 c1 c2) (enc_sextet2 c2 c3) (enc_sextet3 c3))
     = [c1, c2, c3]"
  using pack24_byte0 [of "int_of_char c1" "int_of_char c2" "int_of_char c3"]
    pack24_byte1 [of "int_of_char c1" "int_of_char c2" "int_of_char c3"]
    pack24_byte2 [of "int_of_char c1" "int_of_char c2" "int_of_char c3"]
  by (simp add: enc_sextet_defs string_from_int_def byte_int_of_char char_of_int_of_char)

lemma string_from_int_group2:
  "string_from_int (push_bit 18 (enc_sextet0 c1) OR push_bit 12 (enc_sextet1 c1 c2) OR
       push_bit 6 (enc_sextet2_last c2)) = [c1, c2, CHR 0x00]"
proof -
  define x where "x = int_of_char c1"
  define y where "y = int_of_char c2"
  have x: "take_bit 8 x = x" and y: "take_bit 8 y = y"
    by (simp_all add: x_def y_def byte_int_of_char)
  let ?v = "push_bit 18 (drop_bit 2 (take_bit 8 x AND 0xFC)) OR
       push_bit 12 (push_bit 4 (take_bit 8 x AND 0x03) OR drop_bit 4 (take_bit 8 y AND 0xF0)) OR
       push_bit 6 (push_bit 2 (take_bit 8 y AND 0x0F))"
  have b0: "drop_bit 16 ?v AND 0xFF = take_bit 8 x"
    using join_bits [of 2 6 x] by (simp add: and_consts shift_simps)
  have b1: "drop_bit 8 ?v AND 0xFF = take_bit 8 y"
    using join_bits [of 4 4 y] by (simp add: and_consts shift_simps)
  have b2: "?v AND 0xFF = 0"
    by (simp add: and_consts shift_simps)
  have "string_from_int ?v = [char_of x, char_of y, CHR 0x00]"
    unfolding string_from_int_def b0 b1 b2 by (simp add: x y char_of_zero)
  then show ?thesis
    by (simp add: x y) (simp add: x_def y_def enc_sextet_defs char_of_int_of_char)
qed

lemma string_from_int_group1:
  "string_from_int (push_bit 18 (enc_sextet0 c1) OR push_bit 12 (enc_sextet1_last c1))
     = [c1, CHR 0x00, CHR 0x00]"
proof -
  define x where "x = int_of_char c1"
  have x: "take_bit 8 x = x"
    by (simp_all add: x_def byte_int_of_char)
  let ?v = "push_bit 18 (drop_bit 2 (take_bit 8 x AND 0xFC)) OR
       push_bit 12 (push_bit 4 (take_bit 8 x AND 0x03))"
  have b0: "drop_bit 16 ?v AND 0xFF = take_bit 8 x"
    using join_bits [of 2 6 x] by (simp add: and_consts shift_simps)
  have b1: "drop_bit 8 ?v AND 0xFF = 0"
    by (simp add: and_consts shift_simps)
  have b2: "?v AND 0xFF = 0"
    by (simp add: and_consts shift_simps)
  have "string_from_int ?v = [char_of x, CHR 0x00, CHR 0x00]"
    unfolding string_from_int_def b0 b1 b2 by (simp add: x char_of_zero)
  then show ?thesis
    by (simp add: x) (simp add: x_def enc_sextet_defs char_of_int_of_char)
qed

lemma Suc3_mod3: "Suc (Suc (Suc n)) mod 3 = n mod 3"
  by presburger

lemma decoder_impl_encoder:
  "b64_decoder_impl (CTBase64Encoder b)
     = Inr (b @ replicate ((3 - length b mod 3) mod 3) (CHR 0x00))"
proof (induction b rule: CTBase64Encoder.induct)
  case (1 c1 c2 c3 chars)
  show ?case
    using string_from_int_group3 [of c1 c2 c3]
    by (simp add: 1 CTBase64Encoder_groups pack24_def indexOf_dict_sextet dict_sextet_not_pad
        enc_sextets Suc3_mod3 del: CTBase64Encoder.simps)
next
  case (2 c1 c2)
  show ?case
    using string_from_int_group2 [of c1 c2]
    by (simp add: CTBase64Encoder_groups indexOf_dict_sextet dict_sextet_not_pad enc_sextets
        del: CTBase64Encoder.simps)
next
  case (3 c1)
  show ?case
    using string_from_int_group1 [of c1]
    by (simp add: CTBase64Encoder_groups indexOf_dict_sextet dict_sextet_not_pad enc_sextets
        numeral_2_eq_2 del: CTBase64Encoder.simps)
next
  case 4
  show ?case by simp
qed

section \<open>The validity check\<close>

lemma indexOf_pad_not_less: "\<not> indexOf CHR ''='' < 64"
  by (simp add: indexOf_pad)

lemma enc_sextets_less:
  "enc_sextet0 c1 < 64" "enc_sextet1 c1 c2 < 64" "enc_sextet2 c2 c3 < 64"
  "enc_sextet3 c3 < 64" "enc_sextet1_last c1 < 64" "enc_sextet2_last c2 < 64"
  using enc_sextets(1) [of c1] enc_sextets(2) [of c1 c2] enc_sextets(3) [of c2 c3]
    enc_sextets(4) [of c3] enc_sextets(5) [of c1] enc_sextets(6) [of c2]
  by (simp_all add: sextet_iff)

lemma is_base64_chars_v_encoder: "is_base64_chars_v (CTBase64Encoder b)"
proof (induction b rule: CTBase64Encoder.induct)
  case (1 c1 c2 c3 chars)
  then show ?case
    by (simp add: CTBase64Encoder_groups indexOf_dict_sextet dict_sextet_not_pad enc_sextets
        enc_sextets_less del: CTBase64Encoder.simps)
next
  case (2 c1 c2)
  show ?case
    by (simp add: CTBase64Encoder_groups indexOf_dict_sextet dict_sextet_not_pad enc_sextets
        enc_sextets_less del: CTBase64Encoder.simps)
next
  case (3 c1)
  show ?case
    by (simp add: CTBase64Encoder_groups indexOf_dict_sextet dict_sextet_not_pad enc_sextets
        enc_sextets_less del: CTBase64Encoder.simps)
next
  case 4
  show ?case by simp
qed

lemma length_CTBase64Encoder: "length (CTBase64Encoder b) = 4 * ((length b + 2) div 3)"
proof (induction b rule: CTBase64Encoder.induct)
  case (1 c1 c2 c3 chars)
  have "(length (c1 # c2 # c3 # chars) + 2) div 3 = Suc ((length chars + 2) div 3)"
    by simp
  then show ?case
    using 1 by (simp add: CTBase64Encoder_groups del: CTBase64Encoder.simps)
qed simp_all

lemma is_base64_encoding_v_encoder: "is_base64_encoding_v (CTBase64Encoder b)"
  by (simp add: is_base64_encoding_v_def is_base64_valid_length_v_def
      is_base64_chars_v_encoder length_CTBase64Encoder)

lemma is_base64_chars_v_shape:
  "is_base64_chars_v s \<longleftrightarrow>
     (s = [] \<or> hd s \<noteq> CHR ''='') \<and> set (alphabet_part s) \<subseteq> set dict \<and>
     (padding_part s = [] \<or> padding_part s = ''='' \<or> padding_part s = ''=='')"
proof (induction s rule: is_base64_chars_v.induct)
  case 1
  show ?case by (simp add: alphabet_part_def padding_part_def)
next
  case (2 head tail)
  show ?case
  proof (cases "head = CHR ''=''")
    case True
    then show ?thesis by (simp add: indexOf_pad)
  next
    case False
    note head = this
    show ?thesis
    proof (cases "tail = ''=='' \<or> tail = ''=''")
      case True
      then show ?thesis
        using head by (auto simp: alphabet_part_def padding_part_def indexOf_mem_dict)
    next
      case False
      have "tail = [] \<or> hd tail \<noteq> CHR ''=''"
        if "padding_part tail = [] \<or> padding_part tail = ''='' \<or> padding_part tail = ''==''"
        using that False by (cases tail) (auto simp: padding_part_def split: if_splits)
      then show ?thesis
        using head False 2
        by (auto simp: alphabet_part_def padding_part_def indexOf_mem_dict)
    qed
  qed
qed

lemma is_base64_encoding_v_well_formed: "is_base64_encoding_v s \<longleftrightarrow> well_formed s"
proof -
  have "s = [] \<or> hd s \<noteq> CHR ''=''"
    if len: "length s mod 4 = 0"
      and pad: "padding_part s = [] \<or> padding_part s = ''='' \<or> padding_part s = ''==''"
  proof (rule ccontr)
    assume "\<not> (s = [] \<or> hd s \<noteq> CHR ''='')"
    then have "padding_part s = s" and "s \<noteq> []"
      by (cases s; simp add: padding_part_def)+
    with pad have "s = ''='' \<or> s = ''==''" by simp
    then have "length s = 1 \<or> length s = 2" by auto
    with len show False by presburger
  qed
  then show ?thesis
    unfolding is_base64_encoding_v_def is_base64_valid_length_v_def well_formed_def
      is_base64_chars_v_shape
    by auto
qed

section \<open>The decoder on valid input\<close>

lemma is_base64_encoding_v_group:
  "is_base64_encoding_v (c1 # c2 # c3 # c4 # chars) \<longleftrightarrow>
     indexOf c1 < 64 \<and> indexOf c2 < 64 \<and>
     (if chars = [] \<and> c3 = CHR ''='' \<and> c4 = CHR ''='' then True
      else if chars = [] \<and> c4 = CHR ''='' then indexOf c3 < 64
      else indexOf c3 < 64 \<and> indexOf c4 < 64 \<and> is_base64_encoding_v chars)"
  by (auto simp: is_base64_encoding_v_def is_base64_valid_length_v_def indexOf_pad)

lemma is_base64_encoding_v_short:
  "\<not> is_base64_encoding_v [a]" "\<not> is_base64_encoding_v [a, b]"
  "\<not> is_base64_encoding_v [a, b, c]"
  by (simp_all add: is_base64_encoding_v_def is_base64_valid_length_v_def)

lemma length_string_from_int: "length (string_from_int v) = 3"
  by (simp add: string_from_int_def)

lemma b64_decoder_impl_valid:
  "is_base64_encoding_v s \<Longrightarrow>
     \<exists>bs. b64_decoder_impl s = Inr bs \<and> length bs = 3 * (length s div 4)"
proof (induction s rule: b64_decoder_impl.induct)
  case 1
  show ?case by simp
next
  case (2 c1 c2 c3 c4 chars)
  show ?case
  proof (cases "chars = [] \<and> c4 = CHR ''=''")
    case True
    then show ?thesis by (simp add: length_string_from_int)
  next
    case False
    with "2.prems" have "is_base64_encoding_v chars"
      by (simp add: is_base64_encoding_v_group split: if_splits)
    with False "2.IH" obtain bs
      where "b64_decoder_impl chars = Inr bs" "length bs = 3 * (length chars div 4)"
      by auto
    moreover have "length (c1 # c2 # c3 # c4 # chars) div 4 = Suc (length chars div 4)"
      by simp
    ultimately show ?thesis
      using False by (auto simp: length_string_from_int simp del: length_Cons list.size)
  qed
qed (simp_all add: is_base64_encoding_v_short)

lemma b64_decoder_impl_full_group:
  "c4 \<noteq> CHR ''='' \<Longrightarrow> b64_decoder_impl (c1 # c2 # c3 # c4 # chars) =
     (case b64_decoder_impl chars of
        Inl e \<Rightarrow> Inl e
      | Inr r \<Rightarrow> Inr (string_from_int (pack24 (indexOf c1) (indexOf c2) (indexOf c3) (indexOf c4)) @ r))"
  unfolding pack24_def by simp

lemma decode_valid: "is_base64_encoding_v s \<Longrightarrow> decode s = b64_decoder_impl s"
  by (simp add: decode_def CTBase64Decoder_def b64_decode_if_def)

lemma decode_invalid: "\<not> is_base64_encoding_v s \<Longrightarrow> decode s = Inl InvalidEncoding"
  by (simp add: decode_def CTBase64Decoder_def b64_decode_if_def)

subsection \<open>The last group of a valid input\<close>

lemma is_base64_encoding_v_append:
  "length g mod 4 = 0 \<Longrightarrow> is_base64_encoding_v (g @ h) \<Longrightarrow> h \<noteq> [] \<Longrightarrow>
     set g \<subseteq> set dict \<and> is_base64_encoding_v h"
proof (induction g rule: b64_decoder_impl.induct)
  case 1
  then show ?case by simp
next
  case (2 c1 c2 c3 c4 chars)
  from "2.prems" have v: "is_base64_encoding_v (c1 # c2 # c3 # c4 # (chars @ h))" by simp
  from "2.prems" have ne: "chars @ h \<noteq> []" by simp
  from v ne have "indexOf c1 < 64" "indexOf c2 < 64" "indexOf c3 < 64" "indexOf c4 < 64"
    "is_base64_encoding_v (chars @ h)"
    unfolding is_base64_encoding_v_group by (simp_all split: if_splits)
  moreover from "2.prems" have "length chars mod 4 = 0" by simp
  moreover from \<open>indexOf c4 < 64\<close> have "c4 \<noteq> CHR ''=''"
    using indexOf_pad by auto
  ultimately show ?case
    using "2.IH" "2.prems"(3) by (simp add: indexOf_mem_dict)
qed simp_all

lemma b64_decoder_impl_append:
  "length g mod 4 = 0 \<Longrightarrow> set g \<subseteq> set dict \<Longrightarrow> h \<noteq> [] \<Longrightarrow>
     \<exists>pre. b64_decoder_impl g = Inr pre \<and> length pre = 3 * (length g div 4) \<and>
       b64_decoder_impl (g @ h) =
         (case b64_decoder_impl h of Inl e \<Rightarrow> Inl e | Inr t \<Rightarrow> Inr (pre @ t))"
proof (induction g rule: b64_decoder_impl.induct)
  case 1
  show ?case by (simp split: sum.split)
next
  case (2 c1 c2 c3 c4 chars)
  from "2.prems" have c4: "c4 \<noteq> CHR ''=''"
    using pad_notin_dict by auto
  from "2.prems" have "length chars mod 4 = 0" "set chars \<subseteq> set dict" by simp_all
  with "2.IH" "2.prems"(3) c4 obtain pre where pre: "b64_decoder_impl chars = Inr pre"
    "length pre = 3 * (length chars div 4)"
    "b64_decoder_impl (chars @ h) =
       (case b64_decoder_impl h of Inl e \<Rightarrow> Inl e | Inr t \<Rightarrow> Inr (pre @ t))"
    by auto
  have len: "length (c1 # c2 # c3 # c4 # chars) div 4 = Suc (length chars div 4)"
    by simp
  have "b64_decoder_impl ((c1 # c2 # c3 # c4 # chars) @ h) =
      (case b64_decoder_impl (chars @ h) of
        Inl e \<Rightarrow> Inl e
      | Inr r \<Rightarrow> Inr (string_from_int (pack24 (indexOf c1) (indexOf c2) (indexOf c3) (indexOf c4)) @ r))"
    using b64_decoder_impl_full_group [OF c4, of c1 c2 c3 "chars @ h"] by simp
  then show ?case
    using pre b64_decoder_impl_full_group [OF c4, of c1 c2 c3 chars] len
    by (simp add: length_string_from_int split: sum.split del: b64_decoder_impl.simps length_Cons list.size)
qed simp_all

section \<open>Encoding what the decoder emits\<close>

lemma CTBase64Encoder_string_from_int:
  assumes "indexOf c1 < 64" "indexOf c2 < 64" "indexOf c3 < 64" "indexOf c4 < 64"
  shows "CTBase64Encoder
           (string_from_int (pack24 (indexOf c1) (indexOf c2) (indexOf c3) (indexOf c4)) @ r)
         = [c1, c2, c3, c4] @ CTBase64Encoder r"
proof -
  define v where "v = pack24 (take_bit 6 (indexOf c1)) (take_bit 6 (indexOf c2))
    (take_bit 6 (indexOf c3)) (take_bit 6 (indexOf c4))"
  have v: "pack24 (indexOf c1) (indexOf c2) (indexOf c3) (indexOf c4) = v"
    using assms by (simp add: v_def indexOf_sextet)
  define b0 where "b0 = char_of (drop_bit 16 v AND 0xFF)"
  define b1 where "b1 = char_of (drop_bit 8 v AND 0xFF)"
  define b2 where "b2 = char_of (v AND 0xFF)"
  have s0: "enc_sextet0 b0 = indexOf c1"
    unfolding enc_sextet0_def b0_def int_of_char_char_of v_def sextet0_of_pack24
    using assms by (simp add: indexOf_sextet)
  have s1: "enc_sextet1 b0 b1 = indexOf c2"
    unfolding enc_sextet1_def b0_def b1_def int_of_char_char_of v_def sextet1_of_pack24
    using assms by (simp add: indexOf_sextet)
  have s2: "enc_sextet2 b1 b2 = indexOf c3"
    unfolding enc_sextet2_def b1_def b2_def int_of_char_char_of v_def sextet2_of_pack24
    using assms by (simp add: indexOf_sextet)
  have s3: "enc_sextet3 b2 = indexOf c4"
    unfolding enc_sextet3_def b2_def int_of_char_char_of v_def sextet3_of_pack24
    using assms by (simp add: indexOf_sextet)
  have "string_from_int v = [b0, b1, b2]"
    by (simp add: string_from_int_def b0_def b1_def b2_def)
  then show ?thesis
    unfolding v using assms
    by (simp add: CTBase64Encoder_group3 s0 s1 s2 s3 dict_indexOf del: CTBase64Encoder.simps)
qed

lemma CTBase64Encoder_decoder_unpadded:
  "is_base64_encoding_v s \<Longrightarrow> CHR ''='' \<notin> set s \<Longrightarrow>
     \<exists>bs. b64_decoder_impl s = Inr bs \<and> CTBase64Encoder bs = s"
proof (induction s rule: b64_decoder_impl.induct)
  case 1
  show ?case by simp
next
  case (2 c1 c2 c3 c4 chars)
  from "2.prems" have c: "c3 \<noteq> CHR ''=''" "c4 \<noteq> CHR ''=''" "CHR ''='' \<notin> set chars"
    by auto
  with "2.prems" have i: "indexOf c1 < 64" "indexOf c2 < 64" "indexOf c3 < 64" "indexOf c4 < 64"
    and v: "is_base64_encoding_v chars"
    unfolding is_base64_encoding_v_group by (simp_all split: if_splits)
  from "2.IH" c v obtain bs where bs: "b64_decoder_impl chars = Inr bs" "CTBase64Encoder bs = chars"
    by auto
  show ?case
    using CTBase64Encoder_string_from_int [OF i, of bs] bs
    by (simp add: b64_decoder_impl_full_group [OF c(2)] del: b64_decoder_impl.simps)
qed (simp_all add: is_base64_encoding_v_short)

lemma CTBase64Encoder_append:
  "length xs mod 3 = 0 \<Longrightarrow> CTBase64Encoder (xs @ ys) = CTBase64Encoder xs @ CTBase64Encoder ys"
  by (induction xs rule: CTBase64Encoder.induct) simp_all

lemma CTBase64Encoder_no_padding:
  "length bs mod 3 = 0 \<Longrightarrow> set (CTBase64Encoder bs) \<subseteq> set dict"
proof (induction bs rule: CTBase64Encoder.induct)
  case (1 c1 c2 c3 chars)
  then show ?case
    by (simp add: CTBase64Encoder_group3 dict_sextet_mem enc_sextets del: CTBase64Encoder.simps)
qed simp_all

section \<open>Signedness of \<open>char\<close>\<close>

text \<open>
  Whether \<^verbatim>\<open>char\<close> is signed is left to the platform.  The source promotes a
  \<^verbatim>\<open>char\<close> only to mask it with a constant below 256 or to compare it with an ASCII
  character, so the signed promotion gives the encoder and \<open>indexOf\<close> the same values as
  the unsigned one of the model.
\<close>

lemma take_bit_signed_int_of_char: "take_bit 8 (signed_int_of_char c) = int_of_char c"
proof -
  have "take_bit 8 (int_of_char c - 256) = take_bit 8 (int_of_char c)"
    by (simp add: take_bit_eq_mod)
  then show ?thesis
    by (simp add: signed_int_of_char_def byte_int_of_char)
qed

lemma and_low_bits: "(x::int) AND take_bit k m = take_bit k x AND take_bit k m"
  by (rule bit_eqI) (auto simp: bit_simps)

lemma signed_and_mask:
  assumes "take_bit 8 m = m"
  shows "signed_int_of_char c AND m = int_of_char c AND m"
  using and_low_bits [of "signed_int_of_char c" 8 m]
  by (simp only: assms take_bit_signed_int_of_char)

lemma signed_masks:
  "signed_int_of_char c AND 0xFC = int_of_char c AND 0xFC"
  "signed_int_of_char c AND 0x03 = int_of_char c AND 0x03"
  "signed_int_of_char c AND 0xF0 = int_of_char c AND 0xF0"
  "signed_int_of_char c AND 0x0F = int_of_char c AND 0x0F"
  "signed_int_of_char c AND 0xC0 = int_of_char c AND 0xC0"
  "signed_int_of_char c AND 0x3F = int_of_char c AND 0x3F"
  by (rule signed_and_mask, simp add: take_bit_eq_mod)+

lemma indexOf_signed:
  "indexOf c =
     (if signed_int_of_char CHR ''A'' \<le> signed_int_of_char c \<and>
         signed_int_of_char c \<le> signed_int_of_char CHR ''Z''
        then 0 + signed_int_of_char c - signed_int_of_char CHR ''A''
      else if signed_int_of_char CHR ''a'' \<le> signed_int_of_char c \<and>
         signed_int_of_char c \<le> signed_int_of_char CHR ''z''
        then 26 + signed_int_of_char c - signed_int_of_char CHR ''a''
      else if signed_int_of_char CHR ''0'' \<le> signed_int_of_char c \<and>
         signed_int_of_char c \<le> signed_int_of_char CHR ''9''
        then 52 + signed_int_of_char c - signed_int_of_char CHR ''0''
      else if c = CHR ''@'' then 62
      else if c = CHR ''&'' then 63
      else 64)"
proof -
  have l: "signed_int_of_char CHR ''A'' = 65" "signed_int_of_char CHR ''Z'' = 90"
    "signed_int_of_char CHR ''a'' = 97" "signed_int_of_char CHR ''z'' = 122"
    "signed_int_of_char CHR ''0'' = 48" "signed_int_of_char CHR ''9'' = 57"
    "int_of_char CHR ''A'' = 65" "int_of_char CHR ''Z'' = 90"
    "int_of_char CHR ''a'' = 97" "int_of_char CHR ''z'' = 122"
    "int_of_char CHR ''0'' = 48" "int_of_char CHR ''9'' = 57"
    by (simp_all add: signed_int_of_char_def int_of_char_def)
  show ?thesis
  proof (cases "int_of_char c < 128")
    case True
    then have "signed_int_of_char c = int_of_char c"
      by (simp add: signed_int_of_char_def)
    then show ?thesis
      by (simp only: indexOf_def l)
  next
    case False
    then have "signed_int_of_char c < 0"
      using int_of_char_range [of c] by (simp add: signed_int_of_char_def)
    with False show ?thesis
      unfolding indexOf_def l by simp
  qed
qed

section \<open>The decoded string as a C string\<close>

text \<open>
  \<^verbatim>\<open>ct::string<str...>::data\<close> is the pack followed by a terminating zero.  Read as a C
  string, which is how \<^verbatim>\<open>operator<<\<close> prints it and how \<^verbatim>\<open>CT_BASE64_DECODE_RT\<close>
  hands it to a \<^verbatim>\<open>std::string\<close>, it ends at its first zero byte; the zero bytes the
  decoder emits for a padded group then do not show.
\<close>

lemma c_str_decode_encode:
  assumes "CHR 0x00 \<notin> set b"
  shows "\<exists>d. decode (encode b) = Inr d \<and> c_str d = b"
proof -
  have "decode (encode b) = Inr (b @ replicate ((3 - length b mod 3) mod 3) (CHR 0x00))"
    using is_base64_encoding_v_encoder [of b]
    by (simp add: encode_def decode_valid decoder_impl_encoder)
  moreover have "c_str (b @ replicate k (CHR 0x00)) = b" for k
    using assms by (cases k) (auto simp: c_str_def takeWhile_tail takeWhile_eq_all_conv)
  ultimately show ?thesis by simp
qed

section \<open>Empty input\<close>

text \<open>
  C7: encoding the empty byte sequence gives the empty string, and decoding the empty
  string succeeds with the empty byte sequence.
\<close>

theorem C7_empty_input: "encode [] = [] \<and> decode [] = Inr []"
  by (simp add: encode_def decode_def CTBase64Decoder_def b64_decode_if_def
      is_base64_encoding_v_def is_base64_valid_length_v_def)

section \<open>The alphabet\<close>

text \<open>
  C6: the alphabet is a sequence of 64 distinct printable characters, indexed 0 to 63: the
  letters \<open>A\<close> to \<open>Z\<close>, \<open>a\<close> to \<open>z\<close> and the digits \<open>0\<close> to \<open>9\<close>, as in the
  conventional alphabet, then \<open>@\<close> at index 62 and \<open>&\<close> at index 63 where the conventional
  alphabet has \<open>+\<close> and \<open>/\<close>.  The padding character is \<open>=\<close>: it is not in the
  alphabet, and it is what the encoder appends to a short final group.
\<close>

theorem C6_alphabet:
  "length dict = 64 \<and> distinct dict \<and>
   list_all (\<lambda>c. 32 \<le> (of_char c :: nat) \<and> (of_char c :: nat) < 127) dict \<and>
   dict = map char_of ([65..<91] @ [97..<123] @ [48..<58] @ [64, 38::nat]) \<and>
   dict = standard_alphabet[62 := CHR ''@'', 63 := CHR ''&''] \<and>
   standard_alphabet ! 62 = CHR ''+'' \<and> standard_alphabet ! 63 = CHR ''/'' \<and>
   dict ! 62 = CHR ''@'' \<and> dict ! 63 = CHR ''&'' \<and>
   CHR ''='' \<notin> set dict \<and>
   drop 2 (encode [c1]) = ''=='' \<and> drop 3 (encode [c1, c2]) = ''=''"
proof -
  have "list_all (\<lambda>c. 32 \<le> (of_char c :: nat) \<and> (of_char c :: nat) < 127) dict"
    by (simp add: dict_def)
  moreover have "dict = standard_alphabet[62 := CHR ''@'', 63 := CHR ''&'']"
    by (simp add: dict_def standard_alphabet_def)
  moreover have "standard_alphabet ! 62 = CHR ''+''" "standard_alphabet ! 63 = CHR ''/''"
    by (simp_all add: standard_alphabet_def)
  moreover have "drop 2 (encode [c1]) = ''==''" "drop 3 (encode [c1, c2]) = ''=''"
    by (simp_all add: encode_def)
  ultimately show ?thesis
    using length_dict distinct_dict dict_as_ranges dict_nth_62 dict_nth_63 pad_notin_dict
    by blast
qed

text \<open>
  C10: \<open>indexOf\<close> is a left inverse of the table: \<open>indexOf (dict[i]) = i\<close> for every index
  \<open>i\<close> from 0 to 63, so the 64 entries are distinct; and \<open>indexOf c = 64\<close> for every
  character \<open>c\<close> that is not in the alphabet, the padding character \<open>=\<close> among them.
\<close>

theorem C10_indexOf_left_inverse:
  "(i \<le> 63 \<longrightarrow> indexOf (dict ! i) = int i) \<and> distinct dict \<and>
   (c \<notin> set dict \<longrightarrow> indexOf c = 64) \<and>
   CHR ''='' \<notin> set dict \<and> indexOf CHR ''='' = 64"
proof -
  have "indexOf (dict ! i) = int i" if "i \<le> 63"
    using that by (simp add: indexOf_dict_nth)
  moreover have "indexOf c = 64" if "c \<notin> set dict"
    using that indexOf_mem_dict [of c] indexOf_range [of c] by simp
  ultimately show ?thesis
    using distinct_dict pad_notin_dict indexOf_pad by blast
qed

theorem C10_indexOf_left_inverse_witness:
  "(62::nat) \<le> 63 \<and> indexOf (dict ! 62) = 62 \<and>
   CHR ''+'' \<notin> set dict \<and> indexOf CHR ''+'' = 64"
  using C10_indexOf_left_inverse [of 62 "CHR ''+''"] by (simp add: dict_def)

section \<open>The encoder's groups\<close>

text \<open>
  C5: the encoder works through its input in consecutive groups of three bytes.  A full
  group \<open>(b0, b1, b2)\<close> gives the alphabet characters at the indices \<open>b0 >> 2\<close>,
  \<open>((b0 & 0x03) << 4) | (b1 >> 4)\<close>, \<open>((b1 & 0x0F) << 2) | (b2 >> 6)\<close> and \<open>b2 & 0x3F\<close>; a
  final group of two bytes gives the indices \<open>b0 >> 2\<close>, \<open>((b0 & 0x03) << 4) | (b1 >> 4)\<close>
  and \<open>(b1 & 0x0F) << 2\<close>, then one padding character; a final group of one byte gives the
  indices \<open>b0 >> 2\<close> and \<open>(b0 & 0x03) << 4\<close>, then two padding characters.
\<close>

theorem C5_encoder_groups:
  assumes "length xs mod 3 = 0"
  shows "encode (xs @ b0 # b1 # b2 # ys) =
           encode xs @
           [dict ! nat (drop_bit 2 (int_of_char b0)),
            dict ! nat (push_bit 4 (int_of_char b0 AND 0x03) OR drop_bit 4 (int_of_char b1)),
            dict ! nat (push_bit 2 (int_of_char b1 AND 0x0F) OR drop_bit 6 (int_of_char b2)),
            dict ! nat (int_of_char b2 AND 0x3F)] @
           encode ys \<and>
         encode (xs @ [b0, b1]) =
           encode xs @
           [dict ! nat (drop_bit 2 (int_of_char b0)),
            dict ! nat (push_bit 4 (int_of_char b0 AND 0x03) OR drop_bit 4 (int_of_char b1)),
            dict ! nat (push_bit 2 (int_of_char b1 AND 0x0F)),
            CHR ''=''] \<and>
         encode (xs @ [b0]) =
           encode xs @
           [dict ! nat (drop_bit 2 (int_of_char b0)),
            dict ! nat (push_bit 4 (int_of_char b0 AND 0x03)),
            CHR ''='', CHR ''='']"
proof -
  have s0: "enc_sextet0 b0 = drop_bit 2 (int_of_char b0)"
    by (simp only: enc_sextet0_def enc_index0_byte)
  have s1: "enc_sextet1 b0 b1 = push_bit 4 (int_of_char b0 AND 0x03) OR drop_bit 4 (int_of_char b1)"
    by (simp only: enc_sextet1_def enc_high_nibble_byte)
  have s2: "enc_sextet2 b1 b2 = push_bit 2 (int_of_char b1 AND 0x0F) OR drop_bit 6 (int_of_char b2)"
    by (simp only: enc_sextet2_def enc_high_pair_byte)
  have "CTBase64Encoder (b0 # b1 # b2 # ys) =
           [dict ! nat (drop_bit 2 (int_of_char b0)),
            dict ! nat (push_bit 4 (int_of_char b0 AND 0x03) OR drop_bit 4 (int_of_char b1)),
            dict ! nat (push_bit 2 (int_of_char b1 AND 0x0F) OR drop_bit 6 (int_of_char b2)),
            dict ! nat (int_of_char b2 AND 0x3F)] @
           CTBase64Encoder ys"
    unfolding CTBase64Encoder_group3 s0 s1 s2 enc_sextet3_def ..
  moreover have "CTBase64Encoder [b0, b1] =
           [dict ! nat (drop_bit 2 (int_of_char b0)),
            dict ! nat (push_bit 4 (int_of_char b0 AND 0x03) OR drop_bit 4 (int_of_char b1)),
            dict ! nat (push_bit 2 (int_of_char b1 AND 0x0F)),
            CHR ''='']"
    unfolding CTBase64Encoder_group2 s0 s1 enc_sextet2_last_def ..
  moreover have "CTBase64Encoder [b0] =
           [dict ! nat (drop_bit 2 (int_of_char b0)),
            dict ! nat (push_bit 4 (int_of_char b0 AND 0x03)),
            CHR ''='', CHR ''='']"
    unfolding CTBase64Encoder_group1 s0 enc_sextet1_last_def ..
  ultimately show ?thesis
    unfolding encode_def CTBase64Encoder_append [OF assms] by (simp only: simp_thms)
qed

theorem C5_encoder_groups_witness:
  "length ''Man'' mod 3 = 0 \<and> encode (''Man'' @ ''Man'') = ''TWFuTWFu'' \<and>
   encode (''Man'' @ ''Ma'') = ''TWFuTWE='' \<and> encode (''Man'' @ ''M'') = ''TWFuTQ==''"
proof -
  have l: "length ''Man'' mod 3 = 0" by simp
  have e: "encode ''Man'' = ''TWFu''" "encode [] = []"
    by (simp_all add: encode_def int_of_char_def dict_def)
  show ?thesis
    using C5_encoder_groups [OF l, where ?b0.0 = "CHR ''M''" and ?b1.0 = "CHR ''a''"
        and ?b2.0 = "CHR ''n''" and ys = "[]"]
    by (simp add: e int_of_char_def dict_def)
qed

section \<open>Encoding, then decoding\<close>

lemma ceiling_third: "\<lceil>real n / 3\<rceil> = int ((n + 2) div 3)"
proof -
  have "\<lceil>real n / 3\<rceil> = \<lceil>of_int (int n) / (of_int 3 :: real)\<rceil>"
    by simp
  also have "\<dots> = - (- int n div 3)"
    by (rule ceiling_divide_eq_div)
  also have "\<dots> = int ((n + 2) div 3)"
    by (simp add: zdiv_int)
  finally show ?thesis .
qed

text \<open>
  C9: for a byte sequence of length \<open>n\<close> the encoding has length \<open>4 * \<lceil>n / 3\<rceil>\<close>, which
  is \<open>4 * ((n + 2) div 3)\<close>, and passes the decoder's validity check: its length is a multiple
  of four, every character before the padding is an alphabet member, and the padding is
  nothing, \<open>=\<close> or \<open>==\<close> at the very end.
\<close>

theorem C9_encode_valid:
  "int (length (encode b)) = 4 * \<lceil>real (length b) / 3\<rceil> \<and>
   length (encode b) = 4 * ((length b + 2) div 3) \<and>
   is_base64_encoding_v (encode b) \<and>
   length (encode b) mod 4 = 0 \<and>
   set (alphabet_part (encode b)) \<subseteq> set dict \<and>
   (padding_part (encode b) = [] \<or> padding_part (encode b) = ''='' \<or>
    padding_part (encode b) = ''=='') \<and>
   encode b = alphabet_part (encode b) @ padding_part (encode b)"
proof -
  have "well_formed (encode b)"
    using is_base64_encoding_v_encoder [of b]
    by (simp add: encode_def is_base64_encoding_v_well_formed)
  then show ?thesis
    using is_base64_encoding_v_encoder [of b] length_CTBase64Encoder [of b]
    by (simp add: encode_def well_formed_def alphabet_part_def padding_part_def ceiling_third)
qed

text \<open>
  C1, as the code has it: decoding the encoding of \<open>b\<close> gives \<open>b\<close> followed by one zero
  byte for each padding character of the encoding, that is \<open>(3 - n mod 3) mod 3\<close> zero bytes
  for \<open>b\<close> of length \<open>n\<close>.  The result is \<open>b\<close> itself exactly when \<open>n\<close> is a multiple of
  three.
\<close>

theorem C1_decode_encode:
  "decode (encode b) = Inr (b @ replicate ((3 - length b mod 3) mod 3) (CHR 0x00)) \<and>
   (decode (encode b) = Inr b \<longleftrightarrow> length b mod 3 = 0)"
proof -
  have d: "decode (encode b) = Inr (b @ replicate ((3 - length b mod 3) mod 3) (CHR 0x00))"
    using is_base64_encoding_v_encoder [of b]
    by (simp add: encode_def decode_valid decoder_impl_encoder)
  have "(3 - length b mod 3) mod 3 = 0 \<longleftrightarrow> length b mod 3 = 0"
    by presburger
  then show ?thesis
    unfolding d by simp
qed

text \<open>
  The round trip of C1 fails on a one-byte input: \<open>M\<close> is encoded as \<open>TQ==\<close>, which is
  decoded to three bytes.
\<close>

theorem C1_roundtrip_counterexample:
  "encode ''M'' = ''TQ=='' \<and> decode (encode ''M'') = Inr [CHR ''M'', CHR 0x00, CHR 0x00] \<and>
   decode (encode ''M'') \<noteq> Inr ''M''"
proof -
  have e: "encode ''M'' = ''TQ==''"
    by (simp add: encode_def int_of_char_def dict_def)
  have "decode ''TQ=='' = Inr [CHR ''M'', CHR 0x00, CHR 0x00]"
    by (simp add: decode_def CTBase64Decoder_def b64_decode_if_def is_base64_encoding_v_def
        is_base64_valid_length_v_def indexOf_def int_of_char_def string_from_int_def char_of_def)
  then show ?thesis by (simp add: e)
qed

section \<open>Decoding a group\<close>

lemma b64_decoder_impl_single_group:
  assumes "is_base64_encoding_v [c0, c1, c2, c3]"
  shows "b64_decoder_impl [c0, c1, c2, c3] =
           Inr (string_from_int (pack24 (sextet_of c0) (sextet_of c1) (sextet_of c2) (sextet_of c3)))"
proof -
  from assms have i: "indexOf c0 < 64" "indexOf c1 < 64"
    and r: "c2 = CHR ''='' \<and> c3 = CHR ''='' \<or>
         c2 \<noteq> CHR ''='' \<and> c3 = CHR ''='' \<and> indexOf c2 < 64 \<or>
         c2 \<noteq> CHR ''='' \<and> c3 \<noteq> CHR ''='' \<and> indexOf c2 < 64 \<and> indexOf c3 < 64"
    unfolding is_base64_encoding_v_group using indexOf_pad by (auto split: if_splits)
  from i have n: "c0 \<noteq> CHR ''=''" "c1 \<noteq> CHR ''=''"
    using indexOf_pad by auto
  show ?thesis
    using r n unfolding pack24_def sextet_of_def by auto
qed

lemma is_base64_encoding_v_alphabet:
  assumes "length g mod 4 = 0" and "set g \<subseteq> set dict"
  shows "is_base64_encoding_v g"
proof -
  from assms(2) pad_notin_dict have "\<forall>c\<in>set g. c \<noteq> CHR ''=''"
    by auto
  then have "alphabet_part g = g" "padding_part g = []"
    by (simp_all add: alphabet_part_def padding_part_def)
  with assms show ?thesis
    by (simp add: is_base64_encoding_v_well_formed well_formed_def)
qed

lemma b64_decoder_impl_group_in_context:
  assumes v: "is_base64_encoding_v (g @ [c0, c1, c2, c3] @ h)"
    and len: "length g mod 4 = 0"
  shows "\<exists>pre post.
           b64_decoder_impl (g @ [c0, c1, c2, c3] @ h) =
             Inr (pre @ string_from_int
                    (pack24 (sextet_of c0) (sextet_of c1) (sextet_of c2) (sextet_of c3)) @ post) \<and>
           b64_decoder_impl g = Inr pre \<and> length pre = 3 * (length g div 4) \<and>
           is_base64_encoding_v g \<and>
           b64_decoder_impl h = Inr post \<and> length post = 3 * (length h div 4) \<and>
           is_base64_encoding_v h"
proof -
  let ?grp = "[c0, c1, c2, c3]"
  let ?t = "string_from_int (pack24 (sextet_of c0) (sextet_of c1) (sextet_of c2) (sextet_of c3))"
  from is_base64_encoding_v_append [OF len v] have g: "set g \<subseteq> set dict"
    and gh: "is_base64_encoding_v (?grp @ h)"
    by simp_all
  from len g have vg: "is_base64_encoding_v g"
    by (rule is_base64_encoding_v_alphabet)
  have all: "is_base64_encoding_v ?grp \<and> is_base64_encoding_v h \<and> b64_decoder_impl (?grp @ h) =
        (case b64_decoder_impl h of Inl e \<Rightarrow> Inl e | Inr post \<Rightarrow> Inr (?t @ post))"
  proof (cases "h = []")
    case True
    with gh have grp: "is_base64_encoding_v ?grp" by simp
    have e: "is_base64_encoding_v []"
      by (simp add: is_base64_encoding_v_def is_base64_valid_length_v_def)
    have "b64_decoder_impl ?grp = Inr ?t"
      using grp by (rule b64_decoder_impl_single_group)
    moreover have "b64_decoder_impl [] = Inr []" by simp
    ultimately show ?thesis
      unfolding True using grp e by (simp del: b64_decoder_impl.simps)
  next
    case False
    have l4: "length ?grp mod 4 = 0" by simp
    from is_base64_encoding_v_append [OF l4 gh False]
    have s: "set ?grp \<subseteq> set dict" and h: "is_base64_encoding_v h"
      by simp_all
    from l4 s have grp: "is_base64_encoding_v ?grp"
      by (rule is_base64_encoding_v_alphabet)
    from b64_decoder_impl_append [OF l4 s False] obtain p
      where "b64_decoder_impl ?grp = Inr p"
        "b64_decoder_impl (?grp @ h) =
           (case b64_decoder_impl h of Inl e \<Rightarrow> Inl e | Inr t \<Rightarrow> Inr (p @ t))"
      by blast
    with b64_decoder_impl_single_group [OF grp] grp h show ?thesis
      by (auto simp del: b64_decoder_impl.simps split: sum.splits)
  qed
  then have vh: "is_base64_encoding_v h"
    and split: "b64_decoder_impl (?grp @ h) =
        (case b64_decoder_impl h of Inl e \<Rightarrow> Inl e | Inr post \<Rightarrow> Inr (?t @ post))"
    by blast+
  from b64_decoder_impl_valid [OF vh] obtain post
    where post: "b64_decoder_impl h = Inr post" "length post = 3 * (length h div 4)"
    by blast
  have ne: "?grp @ h \<noteq> []" by simp
  from b64_decoder_impl_append [OF len g ne] obtain pre
    where pre: "b64_decoder_impl g = Inr pre" "length pre = 3 * (length g div 4)"
      "b64_decoder_impl (g @ ?grp @ h) =
         (case b64_decoder_impl (?grp @ h) of Inl e \<Rightarrow> Inl e | Inr t \<Rightarrow> Inr (pre @ t))"
    by blast
  from pre post split vg vh show ?thesis
    by (simp del: b64_decoder_impl.simps)
qed

text \<open>
  C2, as the code has it: every group of four characters of a valid input, whether it is
  followed by further groups or is the final one, is decoded to the three bytes
  \<open>(v >> 16) & 0xFF\<close>, \<open>(v >> 8) & 0xFF\<close> and \<open>v & 0xFF\<close> of its packed value \<open>v\<close>,
  whatever its padding; a padding character contributes no bits to \<open>v\<close>.  The three
  bytes stand in the output after the decoding of the groups before and in front of the
  decoding of the groups after.  A group that ends in \<open>=\<close> or \<open>==\<close> is therefore decoded
  to three bytes too, not to two or one.
\<close>

theorem C2_decode_group:
  assumes "is_base64_encoding_v (g @ [c0, c1, c2, c3] @ h)"
    and "length g mod 4 = 0"
    and "v = pack24 (sextet_of c0) (sextet_of c1) (sextet_of c2) (sextet_of c3)"
  shows "\<exists>pre post.
           decode (g @ [c0, c1, c2, c3] @ h) =
             Inr (pre @ [char_of (drop_bit 16 v AND 0xFF), char_of (drop_bit 8 v AND 0xFF),
                         char_of (v AND 0xFF)] @ post) \<and>
           decode g = Inr pre \<and> length pre = 3 * (length g div 4) \<and>
           decode h = Inr post \<and> length post = 3 * (length h div 4)"
proof -
  from b64_decoder_impl_group_in_context [OF assms(1,2)] obtain pre post
    where "b64_decoder_impl (g @ [c0, c1, c2, c3] @ h) = Inr (pre @ string_from_int v @ post)"
      "b64_decoder_impl g = Inr pre" "length pre = 3 * (length g div 4)"
      "is_base64_encoding_v g"
      "b64_decoder_impl h = Inr post" "length post = 3 * (length h div 4)"
      "is_base64_encoding_v h"
    unfolding assms(3) by blast
  with assms(1) have "decode (g @ [c0, c1, c2, c3] @ h) = Inr (pre @ string_from_int v @ post) \<and>
           decode g = Inr pre \<and> length pre = 3 * (length g div 4) \<and>
           decode h = Inr post \<and> length post = 3 * (length h div 4)"
    by (simp add: decode_valid del: b64_decoder_impl.simps)
  then show ?thesis
    unfolding string_from_int_def by blast
qed

theorem C2_decode_group_witness:
  "is_base64_encoding_v (''TWFu'' @ ''QUJD'' @ ''TWE='') \<and> length ''TWFu'' mod 4 = 0 \<and>
   decode (''TWFu'' @ ''QUJD'' @ ''TWE='') =
     Inr (''Man'' @ ''ABC'' @ [CHR ''M'', CHR ''a'', CHR 0x00]) \<and>
   is_base64_encoding_v (''TWFuQUJD'' @ ''TWE='' @ []) \<and> length ''TWFuQUJD'' mod 4 = 0 \<and>
   decode (''TWFuQUJD'' @ ''TWE='' @ []) =
     Inr (''ManABC'' @ [CHR ''M'', CHR ''a'', CHR 0x00] @ [])"
proof -
  have v: "is_base64_encoding_v (''TWFu'' @ [CHR ''Q'', CHR ''U'', CHR ''J'', CHR ''D''] @ ''TWE='')"
    "is_base64_encoding_v (''TWFuQUJD'' @ [CHR ''T'', CHR ''W'', CHR ''E'', CHR ''=''] @ [])"
    by (simp_all add: is_base64_encoding_v_def is_base64_valid_length_v_def indexOf_def
        int_of_char_def)
  have l: "length ''TWFu'' mod 4 = 0" "length ''TWFuQUJD'' mod 4 = 0"
    by simp_all
  have d: "decode ''TWFu'' = Inr ''Man''" "decode ''TWE='' = Inr [CHR ''M'', CHR ''a'', CHR 0x00]"
    "decode ''TWFuQUJD'' = Inr ''ManABC''" "decode [] = Inr []"
    by (simp_all add: decode_def CTBase64Decoder_def b64_decode_if_def is_base64_encoding_v_def
        is_base64_valid_length_v_def indexOf_def int_of_char_def string_from_int_def char_of_def)
  show ?thesis
    using C2_decode_group [OF v(1) l(1) refl] C2_decode_group [OF v(2) l(2) refl] v l
    by (auto simp: d pack24_def sextet_of_def indexOf_def int_of_char_def char_of_def)
qed

text \<open>
  The group \<open>TWE=\<close> ends in one padding character and is decoded to three bytes, not to
  the two bytes \<open>Ma\<close> that C2 states.
\<close>

theorem C2_padding_counterexample:
  "is_base64_encoding_v ''TWE='' \<and> decode ''TWE='' \<noteq> Inr ''Ma'' \<and>
   (case decode ''TWE='' of Inl e \<Rightarrow> 0 | Inr bs \<Rightarrow> length bs) = 3"
  by (simp add: decode_def CTBase64Decoder_def b64_decode_if_def is_base64_encoding_v_def
      is_base64_valid_length_v_def indexOf_def int_of_char_def string_from_int_def)

section \<open>Decoding, then encoding\<close>

text \<open>
  C3, as the code has it: a valid encoded string is decoded to a byte sequence, and
  encoding that byte sequence gives the string back exactly when the string has no
  padding.  A string with padding is decoded to a whole number of three-byte groups, so
  its re-encoding has no padding and differs from it.
\<close>

theorem C3_encode_decode:
  assumes "is_base64_encoding_v s"
  shows "\<exists>bs. decode s = Inr bs \<and> (encode bs = s \<longleftrightarrow> CHR ''='' \<notin> set s)"
proof (cases "CHR ''='' \<in> set s")
  case False
  with assms obtain bs where "b64_decoder_impl s = Inr bs" "CTBase64Encoder bs = s"
    using CTBase64Encoder_decoder_unpadded by blast
  with assms False show ?thesis
    by (simp add: decode_valid encode_def)
next
  case True
  from assms obtain bs where bs: "b64_decoder_impl s = Inr bs" "length bs = 3 * (length s div 4)"
    using b64_decoder_impl_valid by blast
  then have "set (CTBase64Encoder bs) \<subseteq> set dict"
    by (simp add: CTBase64Encoder_no_padding)
  with True pad_notin_dict have "CTBase64Encoder bs \<noteq> s"
    by auto
  with assms bs True show ?thesis
    by (simp add: decode_valid encode_def)
qed

theorem C3_encode_decode_witness:
  "is_base64_encoding_v ''TWFu'' \<and> decode ''TWFu'' = Inr ''Man'' \<and> encode ''Man'' = ''TWFu''"
proof -
  have v: "is_base64_encoding_v ''TWFu''"
    by (simp add: is_base64_encoding_v_def is_base64_valid_length_v_def indexOf_def
        int_of_char_def)
  have d: "decode ''TWFu'' = Inr ''Man''"
    by (simp add: v decode_valid indexOf_def int_of_char_def string_from_int_def char_of_def)
  show ?thesis
    using C3_encode_decode [OF v] by (auto simp: v d)
qed

text \<open>
  The valid string \<open>TQ==\<close> is decoded to the bytes \<open>M\<close>, 0, 0, which are encoded as
  \<open>TQAA\<close>.
\<close>

theorem C3_padded_counterexample:
  "is_base64_encoding_v ''TQ=='' \<and>
   decode ''TQ=='' = Inr [CHR ''M'', CHR 0x00, CHR 0x00] \<and>
   encode [CHR ''M'', CHR 0x00, CHR 0x00] = ''TQAA'' \<and>
   encode [CHR ''M'', CHR 0x00, CHR 0x00] \<noteq> ''TQ==''"
proof -
  have "is_base64_encoding_v ''TQ==''"
    by (simp add: is_base64_encoding_v_def is_base64_valid_length_v_def indexOf_def
        int_of_char_def)
  moreover have "decode ''TQ=='' = Inr [CHR ''M'', CHR 0x00, CHR 0x00]"
    by (simp add: decode_def CTBase64Decoder_def b64_decode_if_def is_base64_encoding_v_def
        is_base64_valid_length_v_def indexOf_def int_of_char_def string_from_int_def char_of_def)
  moreover have "encode [CHR ''M'', CHR 0x00, CHR 0x00] = ''TQAA''"
    by (simp add: encode_def int_of_char_def dict_def)
  ultimately show ?thesis by simp
qed

section \<open>Rejected input\<close>

text \<open>
  C4, as the code has it: decoding fails with \<open>InvalidEncoding\<close> exactly when the length
  of the input is not a multiple of four, or a character before the first \<open>=\<close> is outside
  the alphabet (the final character of the input included), or the input from its first
  \<open>=\<close> on is anything but \<open>=\<close> or \<open>==\<close>.  On every other input decoding succeeds.  A
  failure carries no decoded bytes, and no input reaches the unspecialised primary
  template of the decoder.
\<close>

theorem C4_decode_fails_iff:
  "(decode s = Inl InvalidEncoding \<longleftrightarrow>
      length s mod 4 \<noteq> 0 \<or> \<not> set (alphabet_part s) \<subseteq> set dict \<or>
      \<not> (padding_part s = [] \<or> padding_part s = ''='' \<or> padding_part s = ''=='')) \<and>
   ((\<exists>bs. decode s = Inr bs) \<longleftrightarrow> decode s \<noteq> Inl InvalidEncoding) \<and>
   decode s \<noteq> Inl NoSpecialization"
proof (cases "is_base64_encoding_v s")
  case True
  then obtain bs where "decode s = Inr bs"
    using b64_decoder_impl_valid [of s] by (auto simp: decode_valid)
  moreover from True have "well_formed s"
    by (simp add: is_base64_encoding_v_well_formed)
  ultimately show ?thesis
    by (simp add: well_formed_def)
next
  case False
  then have "decode s = Inl InvalidEncoding"
    by (rule decode_invalid)
  moreover from False have "\<not> well_formed s"
    by (simp add: is_base64_encoding_v_well_formed)
  ultimately show ?thesis
    by (auto simp: well_formed_def)
qed

theorem C4_decode_fails_iff_witness:
  "decode ''A=AA'' = Inl InvalidEncoding \<and> padding_part ''A=AA'' = ''=AA'' \<and>
   decode ''AAAAA'' = Inl InvalidEncoding \<and> length ''AAAAA'' mod 4 \<noteq> 0 \<and>
   decode ''TWFu'' = Inr ''Man''"
proof -
  have "decode ''TWFu'' = Inr ''Man''"
    by (simp add: decode_def CTBase64Decoder_def b64_decode_if_def is_base64_encoding_v_def
        is_base64_valid_length_v_def indexOf_def int_of_char_def string_from_int_def char_of_def)
  then show ?thesis
    using C4_decode_fails_iff [of "''A=AA''"] C4_decode_fails_iff [of "''AAAAA''"]
    by (simp add: padding_part_def alphabet_part_def)
qed

text \<open>
  The input \<open>AAA!\<close> has a length that is a multiple of four, all its characters but the
  final one are alphabet members and it has no padding character at all, so none of the
  three conditions of C4 holds; it is rejected all the same, since its final character is
  neither an alphabet member nor \<open>=\<close>.
\<close>

theorem C4_final_character_counterexample:
  "length ''AAA!'' mod 4 = 0 \<and> set (butlast ''AAA!'') \<subseteq> set dict \<and>
   CHR ''='' \<notin> set ''AAA!'' \<and> decode ''AAA!'' = Inl InvalidEncoding"
  by (simp add: decode_def CTBase64Decoder_def b64_decode_if_def is_base64_encoding_v_def
      is_base64_valid_length_v_def indexOf_def int_of_char_def dict_def)

section \<open>The length of the decoded output\<close>

lemma low_byte_one_padding:
  "(push_bit 18 i1 OR push_bit 12 i2 OR push_bit 6 i3) AND 0xFF = push_bit 6 ((i3::int) AND 0x03)"
  by (simp add: and_consts shift_simps)

lemma low_byte_two_padding: "(push_bit 18 i1 OR push_bit 12 i2) AND 0xFF = (0::int)"
  by (simp add: and_consts shift_simps)

lemma mid_byte_two_padding:
  "drop_bit 8 (push_bit 18 i1 OR push_bit 12 i2) AND 0xFF = push_bit 4 ((i2::int) AND 0x0F)"
  by (simp add: and_consts shift_simps)

lemma b64_decoder_impl_one_padding:
  assumes "c3 \<noteq> CHR ''=''"
  shows "\<exists>x y. b64_decoder_impl [c1, c2, c3, CHR ''=''] =
           Inr [x, y, char_of (push_bit 6 (indexOf c3 AND 0x03))]"
proof -
  define v where "v = push_bit 18 (indexOf c1) OR push_bit 12 (indexOf c2) OR push_bit 6 (indexOf c3)"
  have "b64_decoder_impl [c1, c2, c3, CHR ''=''] = Inr (string_from_int v)"
    unfolding v_def using assms by simp
  moreover have "v AND 0xFF = push_bit 6 (indexOf c3 AND 0x03)"
    unfolding v_def by (rule low_byte_one_padding)
  ultimately show ?thesis
    by (simp only: string_from_int_def) blast
qed

lemma b64_decoder_impl_two_padding:
  "\<exists>x. b64_decoder_impl [c1, c2, CHR ''='', CHR ''=''] =
           Inr [x, char_of (push_bit 4 (indexOf c2 AND 0x0F)), CHR 0x00]"
proof -
  define v where "v = push_bit 18 (indexOf c1) OR push_bit 12 (indexOf c2)"
  have "b64_decoder_impl [c1, c2, CHR ''='', CHR ''=''] = Inr (string_from_int v)"
    unfolding v_def by simp
  moreover have "v AND 0xFF = 0"
    unfolding v_def by (rule low_byte_two_padding)
  moreover have "drop_bit 8 v AND 0xFF = push_bit 4 (indexOf c2 AND 0x0F)"
    unfolding v_def by (rule mid_byte_two_padding)
  ultimately show ?thesis
    by (simp only: string_from_int_def char_of_zero) blast
qed

lemma last_of_group: "last (pre @ [x, y, z]) = z"
  by simp

lemma last_butlast_of_group: "last (butlast (pre @ [x, y, z])) = y"
  by (simp add: butlast_append)

lemma decode_last_group:
  assumes "is_base64_encoding_v (g @ [c1, c2, c3, c4])"
  shows "\<exists>pre t. decode (g @ [c1, c2, c3, c4]) = Inr (pre @ t) \<and>
           length pre = 3 * (length g div 4) \<and> b64_decoder_impl [c1, c2, c3, c4] = Inr t"
proof -
  from assms have "length (g @ [c1, c2, c3, c4]) mod 4 = 0"
    by (simp add: is_base64_encoding_v_def is_base64_valid_length_v_def)
  then have len: "length g mod 4 = 0"
    by simp
  from is_base64_encoding_v_append [OF len assms] have g: "set g \<subseteq> set dict"
    and h: "is_base64_encoding_v [c1, c2, c3, c4]"
    by simp_all
  from b64_decoder_impl_valid [OF h] obtain t where t: "b64_decoder_impl [c1, c2, c3, c4] = Inr t"
    by blast
  from b64_decoder_impl_append [OF len g, of "[c1, c2, c3, c4]"] obtain pre
    where "length pre = 3 * (length g div 4)"
      "b64_decoder_impl (g @ [c1, c2, c3, c4]) = Inr (pre @ t)"
    unfolding t by auto
  with assms t show ?thesis
    by (simp add: decode_valid)
qed

text \<open>
  C8, as the code has it: a valid encoded string of length \<open>4k\<close> is decoded to exactly
  \<open>3k\<close> bytes.  When the final group carries one padding character, the last byte is
  \<open>(i2 & 0x03) << 6\<close> for the index \<open>i2\<close> of the group's third character; when it carries
  two, the last byte is 0 and the byte before it is \<open>(i1 & 0x0F) << 4\<close> for the index
  \<open>i1\<close> of the group's second character.  These bytes are 0 when the low bits of the index
  are, as they are in every string the encoder produces.
\<close>

theorem C8_decoded_length:
  assumes "is_base64_encoding_v s"
  shows "\<exists>bs. decode s = Inr bs \<and> length bs = 3 * (length s div 4) \<and>
           (s = g @ [c1, c2, c3, CHR ''=''] \<and> c3 \<noteq> CHR ''='' \<longrightarrow>
              last bs = char_of (push_bit 6 (indexOf c3 AND 0x03))) \<and>
           (s = g @ [c1, c2, CHR ''='', CHR ''=''] \<longrightarrow>
              last bs = CHR 0x00 \<and>
              last (butlast bs) = char_of (push_bit 4 (indexOf c2 AND 0x0F)))"
proof -
  from b64_decoder_impl_valid [OF assms] obtain bs
    where bs: "decode s = Inr bs" "length bs = 3 * (length s div 4)"
    using assms by (auto simp: decode_valid)
  have one: "last bs = char_of (push_bit 6 (indexOf c3 AND 0x03))"
    if s: "s = g @ [c1, c2, c3, CHR ''='']" and c3: "c3 \<noteq> CHR ''=''"
  proof -
    from decode_last_group [of g c1 c2 c3 "CHR ''=''"] assms s obtain pre t
      where "decode s = Inr (pre @ t)" "b64_decoder_impl [c1, c2, c3, CHR ''=''] = Inr t"
      by auto
    moreover from b64_decoder_impl_one_padding [OF c3, of c1 c2] obtain x y
      where "b64_decoder_impl [c1, c2, c3, CHR ''=''] = Inr [x, y, char_of (push_bit 6 (indexOf c3 AND 0x03))]"
      by blast
    ultimately have "bs = pre @ [x, y, char_of (push_bit 6 (indexOf c3 AND 0x03))]"
      using bs by simp
    then show ?thesis
      by (simp only: last_of_group)
  qed
  have two: "last bs = CHR 0x00 \<and> last (butlast bs) = char_of (push_bit 4 (indexOf c2 AND 0x0F))"
    if s: "s = g @ [c1, c2, CHR ''='', CHR ''='']"
  proof -
    from decode_last_group [of g c1 c2 "CHR ''=''" "CHR ''=''"] assms s obtain pre t
      where "decode s = Inr (pre @ t)" "b64_decoder_impl [c1, c2, CHR ''='', CHR ''=''] = Inr t"
      by auto
    moreover from b64_decoder_impl_two_padding [of c1 c2] obtain x
      where "b64_decoder_impl [c1, c2, CHR ''='', CHR ''=''] =
        Inr [x, char_of (push_bit 4 (indexOf c2 AND 0x0F)), CHR 0x00]"
      by blast
    ultimately have "bs = pre @ [x, char_of (push_bit 4 (indexOf c2 AND 0x0F)), CHR 0x00]"
      using bs by simp
    then show ?thesis
      by (simp only: last_of_group last_butlast_of_group)
  qed
  from bs one two show ?thesis by blast
qed

theorem C8_decoded_length_witness:
  "is_base64_encoding_v ''AAB='' \<and> decode ''AAB='' = Inr [CHR 0x00, CHR 0x00, CHR ''@''] \<and>
   length [CHR 0x00, CHR 0x00, CHR ''@''] = 3 * (length ''AAB='' div 4) \<and>
   last [CHR 0x00, CHR 0x00, CHR ''@''] = char_of (push_bit 6 (indexOf CHR ''B'' AND (0x03::int)))"
proof -
  have v: "is_base64_encoding_v ''AAB=''"
    by (simp add: is_base64_encoding_v_def is_base64_valid_length_v_def indexOf_def
        int_of_char_def)
  have d: "decode ''AAB='' = Inr [CHR 0x00, CHR 0x00, CHR ''@'']"
    by (simp add: v decode_valid indexOf_def int_of_char_def string_from_int_def char_of_def)
  show ?thesis
    using C8_decoded_length [OF v, where g = "[]" and ?c1.0 = "CHR ''A''" and ?c2.0 = "CHR ''A''"
        and ?c3.0 = "CHR ''B''"]
    by (auto simp: v d)
qed

text \<open>
  The valid string \<open>AAB=\<close> carries one padding character and is decoded to three bytes
  whose last byte is 64, not 0; the valid string \<open>AB==\<close> carries two and is decoded to
  three bytes whose second byte is 16.
\<close>

theorem C8_last_byte_counterexample:
  "is_base64_encoding_v ''AAB='' \<and> decode ''AAB='' = Inr [CHR 0x00, CHR 0x00, CHR ''@''] \<and>
   CHR ''@'' \<noteq> CHR 0x00 \<and>
   is_base64_encoding_v ''AB=='' \<and> decode ''AB=='' = Inr [CHR 0x00, CHR 0x10, CHR 0x00] \<and>
   CHR 0x10 \<noteq> CHR 0x00"
  by (simp add: decode_def CTBase64Decoder_def b64_decode_if_def is_base64_encoding_v_def
      is_base64_valid_length_v_def indexOf_def int_of_char_def string_from_int_def char_of_def)

end
